theory Spec2Isabelle
  imports Complex_Main "HOL-Library.AList" "HOL-Library.Char_ord" "HOL-Library.List_Lexorder"
begin

section \<open>report\_runtimes.py: runtimes of HLS steps from catapult.log files\<close>

text \<open>
  The embedding follows \<^verbatim>\<open>src/bin/report_runtimes.py\<close> function by function.
  Conventions:
  \<^item> a Python \<^verbatim>\<open>str\<close> is a \<^typ>\<open>string\<close>, one \<^typ>\<open>char\<close> per code point; the
    model covers text whose code points are below 256;
  \<^item> a Python \<^verbatim>\<open>dict\<close> is an association list in insertion order with distinct keys;
    \<^verbatim>\<open>d[k] = v\<close> is \<^const>\<open>AList.update\<close> (an existing key keeps its place, a new
    key goes to the end), \<^verbatim>\<open>k in d\<close> is membership in the list of keys;
  \<^item> a Python \<^verbatim>\<open>float\<close> is an exact rational: the rounding of IEEE-754 arithmetic is
    not part of the model;
  \<^item> \<^verbatim>\<open>print\<close> appends a line to a list of output lines that each function returns
    next to its value;
  \<^item> an exception is a value of \<open>exn\<close>.
\<close>

subsection \<open>Characters and strings\<close>

type_synonym step_dict = "(string \<times> rat) list"
type_synonym design_dict = "(string \<times> step_dict) list"

text \<open>\<^verbatim>\<open>str.lower\<close> on code points below 256: A-Z and the upper-case letters of
  Latin-1 (0xC0-0xDE without the multiplication sign 0xD7) move up by 32.\<close>

definition lower_char :: "char \<Rightarrow> char" where
  "lower_char c =
     (let n = (of_char c :: nat)
      in if (65 \<le> n \<and> n \<le> 90) \<or> (192 \<le> n \<and> n \<le> 222 \<and> n \<noteq> 215)
         then char_of (n + 32) else c)"

definition lower :: "string \<Rightarrow> string" where
  "lower s = map lower_char s"

text \<open>The class \<^verbatim>\<open>\s\<close> of a \<^verbatim>\<open>str\<close> pattern, on code points below 256.\<close>

definition is_space :: "char \<Rightarrow> bool" where
  "is_space c =
     (let n = (of_char c :: nat)
      in (9 \<le> n \<and> n \<le> 13) \<or> (28 \<le> n \<and> n \<le> 32) \<or> n = 133 \<or> n = 160)"

text \<open>The class \<^verbatim>\<open>\d\<close>, on code points below 256.\<close>

definition is_digit :: "char \<Rightarrow> bool" where
  "is_digit c = (let n = (of_char c :: nat) in 48 \<le> n \<and> n \<le> 57)"

text \<open>The class \<^verbatim>\<open>[\d.]\<close>.\<close>

definition is_num_char :: "char \<Rightarrow> bool" where
  "is_num_char c = (is_digit c \<or> c = CHR ''.'')"

fun startswith :: "string \<Rightarrow> string \<Rightarrow> bool" where
  "startswith [] s = True"
| "startswith (p # ps) [] = False"
| "startswith (p # ps) (c # cs) = (p = c \<and> startswith ps cs)"

text \<open>\<^verbatim>\<open>sub in s\<close> on strings.\<close>

fun contains :: "string \<Rightarrow> string \<Rightarrow> bool" where
  "contains sub [] = (sub = [])"
| "contains sub (c # cs) = (startswith sub (c # cs) \<or> contains sub cs)"

subsection \<open>The pattern of \<^verbatim>\<open>parse_runtime_from_line\<close>\<close>

text \<open>
  \<^verbatim>\<open>pattern = r"elapsed time\s+([\d.]+)\s+seconds?"\<close>, searched with
  \<^verbatim>\<open>re.IGNORECASE\<close>. The pieces of the pattern are matched one after the other on
  the text that is left. A literal is compared letter by letter, ignoring case.
\<close>

fun lit_ci :: "string \<Rightarrow> string \<Rightarrow> string option" where
  "lit_ci [] s = Some s"
| "lit_ci (p # ps) [] = None"
| "lit_ci (p # ps) (c # cs) =
     (if lower_char c = lower_char p then lit_ci ps cs else None)"

text \<open>
  A greedy \<^verbatim>\<open>X+\<close> for a character class: the longest run of the class, at least one
  character; the result is the run and the rest. In this pattern every class is followed
  by a piece that starts outside the class, so giving characters back can never lead to a
  match and the longest run is the only candidate (lemma \<open>match_here_iff\<close> below).
\<close>

definition plus_class :: "(char \<Rightarrow> bool) \<Rightarrow> string \<Rightarrow> (string \<times> string) option" where
  "plus_class P s =
     (if takeWhile P s = [] then None else Some (takeWhile P s, dropWhile P s))"

text \<open>
  The pattern anchored at the start of \<open>s\<close>; the result is group 1. The final
  \<^verbatim>\<open>s?\<close> matches always and takes no part in the group.
\<close>

definition match_here :: "string \<Rightarrow> string option" where
  "match_here s =
     (case lit_ci ''elapsed time'' s of
        None \<Rightarrow> None
      | Some r1 \<Rightarrow>
     (case plus_class is_space r1 of
        None \<Rightarrow> None
      | Some (w1, r2) \<Rightarrow>
     (case plus_class is_num_char r2 of
        None \<Rightarrow> None
      | Some (tok, r3) \<Rightarrow>
     (case plus_class is_space r3 of
        None \<Rightarrow> None
      | Some (w2, r4) \<Rightarrow>
     (case lit_ci ''second'' r4 of
        None \<Rightarrow> None
      | Some r5 \<Rightarrow> Some tok)))))"

text \<open>\<^verbatim>\<open>re.search\<close>: the match at the leftmost position that has one.\<close>

fun re_search :: "string \<Rightarrow> string option" where
  "re_search [] = match_here []"
| "re_search (c # cs) =
     (case match_here (c # cs) of Some tok \<Rightarrow> Some tok | None \<Rightarrow> re_search cs)"

subsection \<open>\<^verbatim>\<open>float\<close> of the matched token\<close>

definition digit_val :: "char \<Rightarrow> nat" where
  "digit_val c = of_char c - 48"

definition digits_val :: "string \<Rightarrow> nat" where
  "digits_val ds = foldl (\<lambda>a c. 10 * a + digit_val c) 0 ds"

text \<open>
  \<^verbatim>\<open>float(tok)\<close> for a token of digits and dots, which is all group 1 can hold:
  digits, at most one dot, at least one digit. \<open>None\<close> stands for \<^verbatim>\<open>ValueError\<close>.
\<close>

definition py_float :: "string \<Rightarrow> rat option" where
  "py_float tok =
     (let ip = takeWhile is_digit tok; r = dropWhile is_digit tok
      in case r of
           [] \<Rightarrow> if ip = [] then None else Some (of_nat (digits_val ip))
         | c # fp \<Rightarrow>
             if c = CHR ''.'' \<and> list_all is_digit fp \<and> (ip \<noteq> [] \<or> fp \<noteq> [])
             then Some (of_nat (digits_val (ip @ fp)) / 10 ^ length fp)
             else None)"

text \<open>\<^verbatim>\<open>parse_runtime_from_line\<close> (lines 71-86).\<close>

definition parse_runtime_from_line :: "string \<Rightarrow> rat option" where
  "parse_runtime_from_line line =
     (case re_search line of
        Some tok \<Rightarrow> (case py_float tok of Some v \<Rightarrow> Some v | None \<Rightarrow> None)
      | None \<Rightarrow> None)"

subsection \<open>The expected steps\<close>

text \<open>The list \<^verbatim>\<open>expected_steps\<close> of \<^verbatim>\<open>parse_hls_runtimes\<close> (lines 94-98).\<close>

definition expected_steps :: "string list" where
  "expected_steps =
     [''analyze'', ''compile'', ''libraries'', ''assembly'', ''loops'',
      ''memories'', ''cluster'', ''architect'', ''allocate'', ''schedule'',
      ''dpfsm'', ''instance'', ''extract'']"

text \<open>The list \<^verbatim>\<open>expected_steps\<close> of \<^verbatim>\<open>export_to_csv\<close> (lines 146-150).\<close>

definition export_expected_steps :: "string list" where
  "export_expected_steps =
     [''analyze'', ''compile'', ''libraries'', ''assembly'', ''loops'',
      ''memories'', ''cluster'', ''architect'', ''allocate'', ''schedule'',
      ''dpfsm'', ''instance'', ''extract'']"

subsection \<open>The scan of a log file\<close>

definition completed_marker :: string where
  "completed_marker = ''Info: Completed transformation''"

text \<open>
  The inner loop of \<^verbatim>\<open>parse_hls_runtimes\<close> (lines 107-112) over the steps that are
  left: the first step that the lower-cased line contains ends the loop
  (\<^verbatim>\<open>break\<close>), whether the line gave a runtime or not.
\<close>

fun try_steps :: "string list \<Rightarrow> string \<Rightarrow> step_dict \<Rightarrow> step_dict" where
  "try_steps [] line step_runtimes = step_runtimes"
| "try_steps (step # steps) line step_runtimes =
     (if contains step (lower line)
      then (case parse_runtime_from_line line of
              Some runtime \<Rightarrow> AList.update step runtime step_runtimes
            | None \<Rightarrow> step_runtimes)
      else try_steps steps line step_runtimes)"

text \<open>The body of the loop over the lines (lines 105-112).\<close>

definition process_line :: "string \<Rightarrow> step_dict \<Rightarrow> step_dict" where
  "process_line line step_runtimes =
     (if contains completed_marker line
      then try_steps expected_steps line step_runtimes
      else step_runtimes)"

text \<open>The loop \<^verbatim>\<open>for line in f\<close> (line 104).\<close>

fun scan_lines :: "string list \<Rightarrow> step_dict \<Rightarrow> step_dict" where
  "scan_lines [] step_runtimes = step_runtimes"
| "scan_lines (line # rest) step_runtimes = scan_lines rest (process_line line step_runtimes)"

subsection \<open>Reading a log file\<close>

text \<open>
  The exceptions that opening or reading a file can raise, as the handlers of
  \<^verbatim>\<open>parse_hls_runtimes\<close> tell them apart: \<^verbatim>\<open>FileNotFoundError\<close>, and any other
  \<^verbatim>\<open>Exception\<close> with its text \<^verbatim>\<open>str(e)\<close>.
\<close>

datatype exn = FileNotFoundError | OtherException string

text \<open>
  What \<^verbatim>\<open>open\<close> and the iteration over the file give for a path: the lines that are
  read, and the exception that ends the reading, if there is one (for a file that cannot
  be opened there are no lines).
\<close>

type_synonym file_read = "string list \<times> exn option"

text \<open>
  The body of the \<^verbatim>\<open>try\<close> (lines 103-112): the lines read before the exception have
  updated \<^verbatim>\<open>step_runtimes\<close> when the exception leaves the block.
\<close>

definition try_scan :: "file_read \<Rightarrow> exn + step_dict" where
  "try_scan r =
     (let step_runtimes = scan_lines (fst r) []
      in case snd r of Some e \<Rightarrow> Inl e | None \<Rightarrow> Inr step_runtimes)"

subsection \<open>Paths\<close>

text \<open>
  A \<^verbatim>\<open>pathlib.Path\<close> (POSIX flavour) is its anchor (\<^verbatim>\<open>/\<close>, \<^verbatim>\<open>//\<close> or nothing) and
  its components.
\<close>

record path =
  anchor :: string
  parts :: "string list"

text \<open>\<^verbatim>\<open>s.split(sep)\<close> for a separator of one character.\<close>

fun split_on :: "char \<Rightarrow> string \<Rightarrow> string list" where
  "split_on sep [] = [[]]"
| "split_on sep (c # cs) =
     (if c = sep then [] # split_on sep cs
      else (case split_on sep cs of [] \<Rightarrow> [[c]] | w # ws \<Rightarrow> (c # w) # ws))"

text \<open>\<^verbatim>\<open>sep.join(xs)\<close>.\<close>

fun join :: "string \<Rightarrow> string list \<Rightarrow> string" where
  "join sep [] = []"
| "join sep [x] = x"
| "join sep (x # y # ys) = x @ sep @ join sep (y # ys)"

text \<open>\<^verbatim>\<open>Path(s)\<close>: empty components and \<^verbatim>\<open>.\<close> are dropped, \<^verbatim>\<open>..\<close> is kept.\<close>

definition Path :: "string \<Rightarrow> path" where
  "Path s =
     \<lparr>anchor = (if startswith ''//'' s \<and> \<not> startswith ''///'' s then ''//''
                else if startswith ''/'' s then ''/'' else []),
      parts = filter (\<lambda>p. p \<noteq> [] \<and> p \<noteq> ''.'') (split_on (CHR ''/'') s)\<rparr>"

text \<open>\<^verbatim>\<open>str(p)\<close>.\<close>

definition path_str :: "path \<Rightarrow> string" where
  "path_str p =
     (if anchor p = [] \<and> parts p = [] then ''.''
      else anchor p @ join ''/'' (parts p))"

text \<open>\<^verbatim>\<open>p.parent\<close>, \<^verbatim>\<open>p.name\<close> and \<^verbatim>\<open>p / n\<close> for one component \<open>n\<close>.\<close>

definition parent :: "path \<Rightarrow> path" where
  "parent p = p\<lparr>parts := butlast (parts p)\<rparr>"

definition name :: "path \<Rightarrow> string" where
  "name p = (if parts p = [] then [] else last (parts p))"

definition child :: "path \<Rightarrow> string \<Rightarrow> path" where
  "child p n = p\<lparr>parts := parts p @ [n]\<rparr>"

subsection \<open>The directory tree and \<^verbatim>\<open>find_catapult_logs\<close>\<close>

text \<open>
  What the file system holds at a path: a file that is no directory, or a directory with
  its entries in listing order.
\<close>

datatype node = File | Dir "(string \<times> node) list"

text \<open>
  \<^verbatim>\<open>p.rglob("catapult.log")\<close> on the node at \<open>p\<close>: every directory of the subtree,
  \<open>p\<close> first and each directory before its subdirectories, gives its entry of that
  name when it has one, of whatever kind the entry is. A path that is no directory has
  no entries.
\<close>

fun rglob :: "path \<Rightarrow> node \<Rightarrow> path list"
  and rglob_entries :: "path \<Rightarrow> (string \<times> node) list \<Rightarrow> path list" where
  "rglob p File = []"
| "rglob p (Dir es) =
     (if ''catapult.log'' \<in> set (map fst es) then [child p ''catapult.log''] else [])
     @ rglob_entries p es"
| "rglob_entries p [] = []"
| "rglob_entries p ((n, c) # es) = rglob (child p n) c @ rglob_entries p es"

text \<open>
  \<^verbatim>\<open>find_catapult_logs\<close> (lines 51-68). The file system is the function \<open>fs\<close>:
  \<open>fs p\<close> is what is at the path \<open>p\<close>, \<open>None\<close> when nothing is
  (\<^verbatim>\<open>exists()\<close> is false). The result is the printed lines and the returned list.
\<close>

definition find_catapult_logs ::
  "(path \<Rightarrow> node option) \<Rightarrow> string \<Rightarrow> string list \<times> (string \<times> string) list" where
  "find_catapult_logs fs hls_dir =
     (let hls_path = Path hls_dir
      in case fs hls_path of
           None \<Rightarrow>
             ([''Warning: HLS directory '' @ [CHR 0x27] @ hls_dir @ [CHR 0x27]
                 @ '' does not exist''], [])
         | Some tree \<Rightarrow>
             ([], map (\<lambda>logfile. (name (parent logfile), path_str logfile))
                      (rglob hls_path tree)))"

subsection \<open>\<^verbatim>\<open>parse_hls_runtimes\<close>\<close>

text \<open>
  \<^verbatim>\<open>parse_hls_runtimes\<close> (lines 89-127). \<open>rd\<close> gives what reading each path gives.
  The result is the printed lines and the returned dictionary.
\<close>

definition parse_hls_runtimes ::
  "(string \<Rightarrow> file_read) \<Rightarrow> string \<Rightarrow> string list \<times> step_dict" where
  "parse_hls_runtimes rd logfile_path =
     (case try_scan (rd logfile_path) of
        Inl FileNotFoundError \<Rightarrow>
          ([''Warning: Could not read logfile '' @ logfile_path], [])
      | Inl (OtherException e) \<Rightarrow>
          ([''Warning: Error reading '' @ logfile_path @ '': '' @ e], [])
      | Inr step_runtimes \<Rightarrow>
          (let missing_steps =
                 filter (\<lambda>step. step \<notin> set (map fst step_runtimes)) expected_steps
           in ((if missing_steps \<noteq> []
                then [''Warning: Design '' @ [CHR 0x27]
                        @ name (parent (Path logfile_path)) @ [CHR 0x27]
                        @ '' is missing steps: '' @ join '', '' missing_steps]
                else []),
               step_runtimes)))"

subsection \<open>The loop of \<^verbatim>\<open>main\<close>\<close>

text \<open>
  Lines 38-42 of \<^verbatim>\<open>main\<close>: the loop over the located files, with
  \<^verbatim>\<open>design_runtimes\<close> as the state. An empty dictionary is false.
\<close>

fun main_loop ::
  "(string \<Rightarrow> file_read) \<Rightarrow> (string \<times> string) list \<Rightarrow> design_dict
     \<Rightarrow> string list \<times> design_dict" where
  "main_loop rd [] design_runtimes = ([], design_runtimes)"
| "main_loop rd ((design_name, logfile_path) # rest) design_runtimes =
     (let (out1, step_runtimes) = parse_hls_runtimes rd logfile_path;
          design_runtimes' =
            (if step_runtimes \<noteq> []
             then AList.update design_name step_runtimes design_runtimes
             else design_runtimes);
          (out2, result) = main_loop rd rest design_runtimes'
      in ((''Parsing: '' @ design_name @ '' ('' @ logfile_path @ '')'') # out1 @ out2,
          result))"

declare main_loop.simps(2) [simp del]

subsection \<open>Formatting\<close>

text \<open>The decimal digits of a natural number, as \<^verbatim>\<open>str(n)\<close> gives them.\<close>

definition digit_char :: "nat \<Rightarrow> char" where
  "digit_char d = char_of (48 + d)"

fun show_nat :: "nat \<Rightarrow> string" where
  "show_nat n =
     (if n < 10 then [digit_char n] else show_nat (n div 10) @ [digit_char (n mod 10)])"

declare show_nat.simps [simp del]

text \<open>Rounding to the nearest integer, a tie to the even neighbour.\<close>

definition round_half_even :: "rat \<Rightarrow> int" where
  "round_half_even x =
     (let f = \<lfloor>x\<rfloor>; d = x - of_int f
      in if d < 1 / 2 then f
         else if 1 / 2 < d then f + 1
         else if even f then f else f + 1)"

text \<open>The format \<^verbatim>\<open>.2f\<close>: sign, integer part, point, two decimals.\<close>

definition fmt_2f :: "rat \<Rightarrow> string" where
  "fmt_2f x =
     (let n = nat (round_half_even (\<bar>x\<bar> * 100))
      in (if x < 0 then ''-'' else []) @ show_nat (n div 100) @ ''.''
         @ [digit_char (n mod 100 div 10), digit_char (n mod 10)])"

text \<open>
  Padding to a width: a string goes to the left of its field (\<^verbatim>\<open>{design_name:30}\<close>),
  a number to the right (\<^verbatim>\<open>{total_runtime:8.2f}\<close>); text longer than the field is kept
  whole.
\<close>

definition ljust :: "nat \<Rightarrow> string \<Rightarrow> string" where
  "ljust w s = s @ replicate (w - length s) (CHR '' '')"

definition rjust :: "nat \<Rightarrow> string \<Rightarrow> string" where
  "rjust w s = replicate (w - length s) (CHR '' '') @ s"

text \<open>\<^verbatim>\<open>round(x, 2)\<close>.\<close>

definition py_round2 :: "rat \<Rightarrow> rat" where
  "py_round2 x = of_int (round_half_even (x * 100)) / 100"

subsection \<open>\<^verbatim>\<open>generate_report\<close>\<close>

text \<open>
  \<^verbatim>\<open>sorted(design_runtimes.items())\<close>: the items are pairs that start with the key, and
  the keys of a dictionary differ, so the order is the order of the keys.
\<close>

definition sorted_items :: "(string \<times> 'v) list \<Rightarrow> (string \<times> 'v) list" where
  "sorted_items d = sort_key fst d"

text \<open>The line that line 139 prints for one item.\<close>

definition report_row :: "string \<times> step_dict \<Rightarrow> string" where
  "report_row item =
     (let design_name = fst item; step_runtimes = snd item;
          total_runtime = sum_list (map snd step_runtimes)
      in ljust 30 design_name @ '' '' @ rjust 8 (fmt_2f total_runtime) @ '' seconds'')"

text \<open>\<^verbatim>\<open>generate_report\<close> (lines 130-139): the printed lines.\<close>

definition generate_report :: "design_dict \<Rightarrow> string list" where
  "generate_report design_runtimes =
     [CHR 0x0A # ''HLS Runtime Summary:'', replicate 60 (CHR ''-'')]
     @ map report_row (sorted_items design_runtimes)"

subsection \<open>\<^verbatim>\<open>export_to_csv\<close>\<close>

text \<open>
  The values that are handed to the \<^verbatim>\<open>csv\<close> writer: a string, a float or
  \<^verbatim>\<open>None\<close>. The writer writes \<^verbatim>\<open>None\<close> as the empty field.
\<close>

datatype cell = CStr string | CFloat rat | CNone

text \<open>
  The loop over the steps (lines 163-168), with \<^verbatim>\<open>row\<close> and \<^verbatim>\<open>total_runtime\<close>
  as the state.
\<close>

fun export_steps ::
  "string list \<Rightarrow> step_dict \<Rightarrow> (string \<times> cell) list \<times> rat \<Rightarrow> (string \<times> cell) list \<times> rat" where
  "export_steps [] step_runtimes (row, total_runtime) = (row, total_runtime)"
| "export_steps (step # steps) step_runtimes (row, total_runtime) =
     (case map_of step_runtimes step of
        Some v \<Rightarrow>
          export_steps steps step_runtimes
            (AList.update step (CFloat v) row, total_runtime + v)
      | None \<Rightarrow>
          export_steps steps step_runtimes (AList.update step CNone row, total_runtime))"

text \<open>The dictionary \<^verbatim>\<open>row\<close> of one item (lines 160-170).\<close>

definition export_row :: "string \<times> step_dict \<Rightarrow> (string \<times> cell) list" where
  "export_row item =
     (let design_name = fst item; step_runtimes = snd item;
          (row, total_runtime) =
            export_steps export_expected_steps step_runtimes
              ([(''design'', CStr design_name)], 0)
      in AList.update ''total_runtime'' (CFloat (py_round2 total_runtime)) row)"

text \<open>
  \<^verbatim>\<open>DictWriter.writerow\<close>: the values of the row in the order of the field names;
  a field that the row lacks is the empty string.
\<close>

definition writerow :: "string list \<Rightarrow> (string \<times> cell) list \<Rightarrow> cell list" where
  "writerow fieldnames row =
     map (\<lambda>k. case map_of row k of Some c \<Rightarrow> c | None \<Rightarrow> CStr []) fieldnames"

definition csv_fieldnames :: "string list" where
  "csv_fieldnames = [''design'', ''total_runtime''] @ export_expected_steps"

text \<open>The rows written inside the \<^verbatim>\<open>with\<close> block: the header, then one per item.\<close>

definition csv_table :: "design_dict \<Rightarrow> cell list list" where
  "csv_table design_runtimes =
     map CStr csv_fieldnames
     # map (\<lambda>item. writerow csv_fieldnames (export_row item)) (sorted_items design_runtimes)"

text \<open>
  \<^verbatim>\<open>export_to_csv\<close> (lines 142-176). \<open>wr\<close> gives for a path the text of the exception
  that writing to it raises, if it raises one. The result is the printed lines and the
  table that was written.
\<close>

definition export_to_csv ::
  "(string \<Rightarrow> string option) \<Rightarrow> design_dict \<Rightarrow> string \<Rightarrow> string list \<times> cell list list option" where
  "export_to_csv wr design_runtimes csv_path =
     (case wr csv_path of
        Some e \<Rightarrow> ([''Error writing CSV file '' @ csv_path @ '': '' @ e], None)
      | None \<Rightarrow>
          ([CHR 0x0A # ''CSV report exported to: '' @ csv_path],
           Some (csv_table design_runtimes)))"

subsection \<open>\<^verbatim>\<open>main\<close>\<close>

record world =
  w_fs :: "path \<Rightarrow> node option"
  w_read :: "string \<Rightarrow> file_read"
  w_write :: "string \<Rightarrow> string option"

text \<open>
  \<^verbatim>\<open>main\<close> (lines 24-49) with the arguments \<^verbatim>\<open>--hls-dir\<close> and \<^verbatim>\<open>--csv\<close>: the
  printed lines and the table written, if one is. An empty list, an empty dictionary and
  an empty string are false.
\<close>

definition main :: "world \<Rightarrow> string \<Rightarrow> string option \<Rightarrow> string list \<times> cell list list option" where
  "main w hls_dir csv =
     (let out0 = [''Searching for catapult.log files in: '' @ hls_dir];
          (out1, logfiles) = find_catapult_logs (w_fs w) hls_dir
      in if logfiles = []
         then (out0 @ out1 @ [''No catapult.log files found!''], None)
         else
           (let out2 = [''Found '' @ show_nat (length logfiles) @ '' catapult.log files''];
                (out3, design_runtimes) = main_loop (w_read w) logfiles []
            in if design_runtimes = []
               then (out0 @ out1 @ out2 @ out3 @ [''No valid runtime data found!''], None)
               else
                 (let out4 = generate_report design_runtimes
                  in case csv of
                       None \<Rightarrow> (out0 @ out1 @ out2 @ out3 @ out4, None)
                     | Some csv_path \<Rightarrow>
                         if csv_path = []
                         then (out0 @ out1 @ out2 @ out3 @ out4, None)
                         else
                           (let (out5, table) =
                                  export_to_csv (w_write w) design_runtimes csv_path
                            in (out0 @ out1 @ out2 @ out3 @ out4 @ out5, table)))))"

subsection \<open>The pattern and the subtree in words\<close>

text \<open>
  The pattern as its text reads, without the order in which a matcher tries things:
  \<open>s\<close> starts with the words \<^verbatim>\<open>elapsed time\<close> in any case, white space, a token
  \<open>tok\<close> of digits and dots, white space, and the word \<^verbatim>\<open>second\<close> in any case.
\<close>

definition pattern_at :: "string \<Rightarrow> string \<Rightarrow> bool" where
  "pattern_at s tok \<longleftrightarrow>
     (\<exists>e w1 w2 sec rest.
        s = e @ w1 @ tok @ w2 @ sec @ rest
        \<and> lower e = ''elapsed time''
        \<and> w1 \<noteq> [] \<and> list_all is_space w1
        \<and> tok \<noteq> [] \<and> list_all is_num_char tok
        \<and> w2 \<noteq> [] \<and> list_all is_space w2
        \<and> lower sec = ''second'')"

text \<open>The leftmost place of \<open>line\<close> where the pattern stands has the token \<open>tok\<close>.\<close>

definition leftmost_elapsed :: "string \<Rightarrow> string \<Rightarrow> bool" where
  "leftmost_elapsed line tok \<longleftrightarrow>
     (\<exists>pre s.
        line = pre @ s \<and> pattern_at s tok
        \<and> (\<forall>pre' s' tok'. line = pre' @ s' \<and> length pre' < length pre
               \<longrightarrow> \<not> pattern_at s' tok'))"

text \<open>
  The names \<open>rel\<close>, read downwards from a node, lead to an entry of its subtree.
\<close>

fun in_subtree :: "node \<Rightarrow> string list \<Rightarrow> bool" where
  "in_subtree File rel = False"
| "in_subtree (Dir es) [] = False"
| "in_subtree (Dir es) [n] = (n \<in> set (map fst es))"
| "in_subtree (Dir es) (n # m # rel) =
     list_ex (\<lambda>e. fst e = n \<and> in_subtree (snd e) (m # rel)) es"

subsection \<open>Example inputs\<close>

text \<open>
  What reading gives for the paths of the examples below: a log with one step, an empty
  log, a log whose reading fails after one line, and for any other path no file.
\<close>

definition example_reads :: "string \<Rightarrow> file_read" where
  "example_reads p =
     (if p = ''hls/a/d/catapult.log''
      then ([''Info: Completed transformation compile: elapsed time 1.5 seconds''], None)
      else if p = ''hls/b/d/catapult.log''
      then ([], None)
      else if p = ''hls/c/catapult.log''
      then ([''Info: Completed transformation analyze: elapsed time 2 seconds''],
            Some (OtherException ''bad byte''))
      else ([], Some FileNotFoundError))"

section \<open>Properties\<close>

subsection \<open>The matcher finds what the pattern says\<close>

text \<open>
  The character classes of the pattern are disjoint from what follows them, so the
  longest run is the only one that can be part of a match: the matcher above and the
  pattern in words agree, and the search returns the token of the leftmost place.
\<close>

lemma num_char_not_space: "is_num_char c \<Longrightarrow> \<not> is_space c"
  by (auto simp: is_num_char_def is_digit_def is_space_def Let_def)

lemma space_lower_char: "is_space c \<Longrightarrow> lower_char c = c"
  by (auto simp: lower_char_def is_space_def Let_def)

lemma lower_s_not_space: "lower_char c = CHR ''s'' \<Longrightarrow> \<not> is_space c"
  using space_lower_char [of c] by (auto simp: is_space_def Let_def)

lemma lit_ci_iff:
  "lit_ci p s = Some r \<longleftrightarrow> (\<exists>e. s = e @ r \<and> lower e = lower p)"
proof (induction p s rule: lit_ci.induct)
  case (1 s)
  then show ?case by (simp add: lower_def)
next
  case (2 p ps)
  then show ?case by (simp add: lower_def)
next
  case (3 p ps c cs)
  show ?case
  proof (cases "lower_char c = lower_char p")
    case True
    with 3 show ?thesis
      by (auto simp: lower_def Cons_eq_append_conv)
  next
    case False
    then show ?thesis
      by (auto simp: lower_def Cons_eq_append_conv)
  qed
qed

lemma takeWhile_stop:
  "list_all P xs \<Longrightarrow> ys = [] \<or> \<not> P (hd ys) \<Longrightarrow> takeWhile P (xs @ ys) = xs"
  by (induction xs) (auto simp: takeWhile_eq_Nil_iff)

lemma dropWhile_stop:
  "list_all P xs \<Longrightarrow> ys = [] \<or> \<not> P (hd ys) \<Longrightarrow> dropWhile P (xs @ ys) = ys"
  by (induction xs) (auto simp: dropWhile_eq_self_iff)

lemma plus_class_iff:
  "plus_class P s = Some (m, r) \<longleftrightarrow>
     m \<noteq> [] \<and> s = m @ r \<and> list_all P m \<and> (r = [] \<or> \<not> P (hd r))"
proof
  assume "plus_class P s = Some (m, r)"
  then have m: "m = takeWhile P s" "r = dropWhile P s" "m \<noteq> []"
    by (auto simp: plus_class_def split: if_splits)
  have "r = [] \<or> \<not> P (hd r)"
    unfolding m by (cases "dropWhile P s = []") (simp_all add: hd_dropWhile)
  moreover have "list_all P m"
    unfolding m by (auto simp: list_all_iff dest: set_takeWhileD)
  ultimately show "m \<noteq> [] \<and> s = m @ r \<and> list_all P m \<and> (r = [] \<or> \<not> P (hd r))"
    using m by simp
next
  assume "m \<noteq> [] \<and> s = m @ r \<and> list_all P m \<and> (r = [] \<or> \<not> P (hd r))"
  then show "plus_class P s = Some (m, r)"
    by (auto simp: plus_class_def takeWhile_stop dropWhile_stop)
qed

lemma lower_literal [simp]:
  "lower ''elapsed time'' = ''elapsed time''" "lower ''second'' = ''second''"
  by (simp_all add: lower_def lower_char_def)



lemma match_here_iff: "match_here s = Some tok \<longleftrightarrow> pattern_at s tok"
proof
  assume "match_here s = Some tok"
  then obtain r1 w1 r2 r3 w2 r4 r5 where
    a: "lit_ci ''elapsed time'' s = Some r1"
    and b: "plus_class is_space r1 = Some (w1, r2)"
    and c: "plus_class is_num_char r2 = Some (tok, r3)"
    and d: "plus_class is_space r3 = Some (w2, r4)"
    and e: "lit_ci ''second'' r4 = Some r5"
    by (auto simp: match_here_def split: option.splits prod.splits)
  from a obtain e1 where e1: "s = e1 @ r1" "lower e1 = ''elapsed time''"
    unfolding lit_ci_iff by auto
  from e obtain e2 where e2: "r4 = e2 @ r5" "lower e2 = ''second''"
    unfolding lit_ci_iff by auto
  from b have b': "w1 \<noteq> []" "r1 = w1 @ r2" "list_all is_space w1"
    unfolding plus_class_iff by simp_all
  from c have c': "tok \<noteq> []" "r2 = tok @ r3" "list_all is_num_char tok"
    unfolding plus_class_iff by simp_all
  from d have d': "w2 \<noteq> []" "r3 = w2 @ r4" "list_all is_space w2"
    unfolding plus_class_iff by simp_all
  have "s = e1 @ w1 @ tok @ w2 @ e2 @ r5"
    by (simp add: e1 b' c' d' e2)
  with e1 e2 b' c' d' show "pattern_at s tok"
    unfolding pattern_at_def by blast
next
  assume "pattern_at s tok"
  then obtain e w1 w2 sec rest where
    s: "s = e @ w1 @ tok @ w2 @ sec @ rest"
    and e: "lower e = ''elapsed time''"
    and w1: "w1 \<noteq> []" "list_all is_space w1"
    and tok: "tok \<noteq> []" "list_all is_num_char tok"
    and w2: "w2 \<noteq> []" "list_all is_space w2"
    and sec: "lower sec = ''second''"
    unfolding pattern_at_def by blast
  from sec have hs: "sec \<noteq> []" "lower_char (hd sec) = CHR ''s''"
    by (auto simp: lower_def)
  have a: "lit_ci ''elapsed time'' s = Some (w1 @ tok @ w2 @ sec @ rest)"
    unfolding lit_ci_iff s by (rule exI[of _ e]) (simp add: e)
  have "\<not> is_space (hd tok)"
    using tok by (cases tok) (simp_all add: num_char_not_space)
  then have b: "plus_class is_space (w1 @ tok @ w2 @ sec @ rest) = Some (w1, tok @ w2 @ sec @ rest)"
    unfolding plus_class_iff using w1 tok by simp
  have "\<not> is_num_char (hd w2)"
    using w2 num_char_not_space [of "hd w2"] by (cases w2) auto
  then have c: "plus_class is_num_char (tok @ w2 @ sec @ rest) = Some (tok, w2 @ sec @ rest)"
    unfolding plus_class_iff using w2 tok by simp
  have "\<not> is_space (hd sec)"
    using hs by (simp add: lower_s_not_space)
  then have d: "plus_class is_space (w2 @ sec @ rest) = Some (w2, sec @ rest)"
    unfolding plus_class_iff using w2 hs by simp
  have f: "lit_ci ''second'' (sec @ rest) = Some rest"
    unfolding lit_ci_iff by (rule exI[of _ sec]) (simp add: sec)
  show "match_here s = Some tok"
    by (simp add: match_here_def a b c d f)
qed

lemma match_here_Nil: "match_here [] = None"
  by (simp add: match_here_def)

lemma re_search_iff: "re_search line = Some tok \<longleftrightarrow> leftmost_elapsed line tok"
proof (induction line)
  case Nil
  show ?case
    by (auto simp: leftmost_elapsed_def match_here_Nil match_here_iff [symmetric])
next
  case (Cons c cs)
  show ?case
  proof (cases "match_here (c # cs)")
    case (Some t)
    have "leftmost_elapsed (c # cs) tok \<longleftrightarrow> tok = t"
    proof
      assume "leftmost_elapsed (c # cs) tok"
      then obtain pre s where ps: "c # cs = pre @ s" "pattern_at s tok"
        and least: "\<forall>pre' s' tok'. c # cs = pre' @ s' \<and> length pre' < length pre
               \<longrightarrow> \<not> pattern_at s' tok'"
        unfolding leftmost_elapsed_def by blast
      have "pre = []"
      proof (rule ccontr)
        assume "pre \<noteq> []"
        then have "c # cs = [] @ (c # cs) \<and> length ([]::string) < length pre" by simp
        with least have "\<not> pattern_at (c # cs) t" by blast
        with Some show False by (simp add: match_here_iff)
      qed
      with ps Some show "tok = t" by (simp add: match_here_iff [symmetric])
    next
      assume "tok = t"
      with Some have "pattern_at (c # cs) tok" by (simp add: match_here_iff)
      then show "leftmost_elapsed (c # cs) tok"
        unfolding leftmost_elapsed_def
        by (intro exI[of _ "[]"] exI[of _ "c # cs"]) simp
    qed
    with Some show ?thesis by auto
  next
    case None
    then have no: "\<And>tok'. \<not> pattern_at (c # cs) tok'"
      by (simp add: match_here_iff [symmetric])
    have "leftmost_elapsed (c # cs) tok \<longleftrightarrow> leftmost_elapsed cs tok"
    proof
      assume "leftmost_elapsed (c # cs) tok"
      then obtain pre s where ps: "c # cs = pre @ s" "pattern_at s tok"
        and least: "\<And>pre' s' tok'. c # cs = pre' @ s' \<Longrightarrow> length pre' < length pre
               \<Longrightarrow> \<not> pattern_at s' tok'"
        unfolding leftmost_elapsed_def by blast
      from ps no obtain pre0 where pre0: "pre = c # pre0" "cs = pre0 @ s"
        by (cases pre) auto
      have "\<forall>pre' s' tok'. cs = pre' @ s' \<and> length pre' < length pre0 \<longrightarrow> \<not> pattern_at s' tok'"
      proof (intro allI impI)
        fix pre' s' tok'
        assume "cs = pre' @ s' \<and> length pre' < length pre0"
        then have "c # cs = (c # pre') @ s'" "length (c # pre') < length pre"
          by (simp_all add: pre0)
        then show "\<not> pattern_at s' tok'" by (rule least)
      qed
      with pre0 ps show "leftmost_elapsed cs tok"
        unfolding leftmost_elapsed_def by blast
    next
      assume "leftmost_elapsed cs tok"
      then obtain pre s where ps: "cs = pre @ s" "pattern_at s tok"
        and least: "\<And>pre' s' tok'. cs = pre' @ s' \<Longrightarrow> length pre' < length pre
               \<Longrightarrow> \<not> pattern_at s' tok'"
        unfolding leftmost_elapsed_def by blast
      have "\<forall>pre' s' tok'. c # cs = pre' @ s' \<and> length pre' < length (c # pre)
               \<longrightarrow> \<not> pattern_at s' tok'"
      proof (intro allI impI)
        fix pre' s' tok'
        assume h: "c # cs = pre' @ s' \<and> length pre' < length (c # pre)"
        show "\<not> pattern_at s' tok'"
        proof (cases pre')
          case Nil
          with h no show ?thesis by simp
        next
          case (Cons a pre1)
          with h have "cs = pre1 @ s'" "length pre1 < length pre" by simp_all
          then show ?thesis by (rule least)
        qed
      qed
      moreover have "c # cs = (c # pre) @ s" using ps by simp
      ultimately show "leftmost_elapsed (c # cs) tok"
        unfolding leftmost_elapsed_def using ps(2) by blast
    qed
    with None Cons show ?thesis by simp
  qed
qed

subsection \<open>The two lists of expected steps\<close>

text \<open>
  Claim C8. The list of expected steps of the parsing path and the one of the export
  path are the same sequence: the same 13 names in the same order.
\<close>

theorem expected_steps_agree:
  "expected_steps = export_expected_steps \<and> length expected_steps = 13
     \<and> distinct expected_steps"
  by (simp add: expected_steps_def export_expected_steps_def)

subsection \<open>The scan of the lines\<close>

lemma startswith_iff: "startswith p s \<longleftrightarrow> (\<exists>post. s = p @ post)"
  by (induction p s rule: startswith.induct) auto

lemma contains_iff: "contains sub s \<longleftrightarrow> (\<exists>pre post. s = pre @ sub @ post)"
proof (induction s)
  case Nil
  then show ?case by auto
next
  case (Cons c cs)
  show ?case
  proof
    assume "contains sub (c # cs)"
    then consider "startswith sub (c # cs)" | "contains sub cs" by auto
    then show "\<exists>pre post. c # cs = pre @ sub @ post"
    proof cases
      case 1
      then obtain post where "c # cs = [] @ sub @ post"
        by (auto simp: startswith_iff)
      then show ?thesis by blast
    next
      case 2
      with Cons obtain pre post where "cs = pre @ sub @ post" by blast
      then have "c # cs = (c # pre) @ sub @ post" by simp
      then show ?thesis by blast
    qed
  next
    assume "\<exists>pre post. c # cs = pre @ sub @ post"
    then obtain pre post where h: "c # cs = pre @ sub @ post" by blast
    show "contains sub (c # cs)"
    proof (cases pre)
      case Nil
      with h have "startswith sub (c # cs)" by (simp add: startswith_iff)
      then show ?thesis by simp
    next
      case (Cons a pre1)
      with h have "cs = pre1 @ sub @ post" by simp
      with Cons.IH have "contains sub cs" by blast
      then show ?thesis by simp
    qed
  qed
qed

lemma contains_lower_iff:
  "contains step (lower line) \<longleftrightarrow> (\<exists>pre mid post. line = pre @ mid @ post \<and> lower mid = step)"
proof
  assume "contains step (lower line)"
  then obtain a b where "map lower_char line = a @ step @ b"
    by (auto simp: contains_iff lower_def)
  then obtain pre r where p: "line = pre @ r" "step @ b = map lower_char r"
    unfolding map_eq_append_conv by blast
  then obtain mid post where "r = mid @ post" "step = map lower_char mid"
    unfolding append_eq_map_conv by blast
  with p show "\<exists>pre mid post. line = pre @ mid @ post \<and> lower mid = step"
    by (auto simp: lower_def)
next
  assume "\<exists>pre mid post. line = pre @ mid @ post \<and> lower mid = step"
  then obtain pre mid post where "line = pre @ mid @ post" "lower mid = step" by blast
  then have "lower line = lower pre @ step @ lower post"
    by (simp add: lower_def)
  then show "contains step (lower line)"
    unfolding contains_iff by blast
qed

lemma try_steps_find:
  "try_steps steps line m =
     (case find (\<lambda>step. contains step (lower line)) steps of
        None \<Rightarrow> m
      | Some step \<Rightarrow>
          (case parse_runtime_from_line line of
             None \<Rightarrow> m
           | Some v \<Rightarrow> AList.update step v m))"
  by (induction steps) auto

lemma process_line_entry:
  "process_line l m = (case process_line l [] of [] \<Rightarrow> m | (s, v) # _ \<Rightarrow> AList.update s v m)"
  by (simp add: process_line_def try_steps_find split: option.splits)

lemma process_line_Nil_cases:
  "process_line l [] = [] \<or> (\<exists>s v. process_line l [] = [(s, v)])"
  by (simp add: process_line_def try_steps_find split: option.splits)

lemma process_line_distinct:
  "distinct (map fst m) \<Longrightarrow> distinct (map fst (process_line l m))"
  using process_line_Nil_cases [of l]
  by (subst process_line_entry) (auto simp: distinct_update)

lemma scan_lines_distinct:
  "distinct (map fst m) \<Longrightarrow> distinct (map fst (scan_lines ls m))"
  by (induction ls arbitrary: m) (auto simp: process_line_distinct)

lemma scan_lines_append:
  "scan_lines (xs @ ys) m = scan_lines ys (scan_lines xs m)"
  by (induction xs arbitrary: m) auto

lemma process_line_other:
  assumes "\<forall>v'. process_line l [] \<noteq> [(s, v')]"
  shows "map_of (process_line l m) s = map_of m s"
proof -
  from process_line_Nil_cases [of l] show ?thesis
  proof
    assume "process_line l [] = []"
    then show ?thesis by (subst process_line_entry) simp
  next
    assume "\<exists>s' v. process_line l [] = [(s', v)]"
    then obtain s' v where e: "process_line l [] = [(s', v)]" by blast
    with assms have "s' \<noteq> s" by auto
    with e show ?thesis
      by (subst process_line_entry) (simp add: update_conv')
  qed
qed

lemma scan_lines_other:
  "\<forall>l' \<in> set ls. \<forall>v'. process_line l' [] \<noteq> [(s, v')] \<Longrightarrow>
     map_of (scan_lines ls m) s = map_of m s"
  by (induction ls arbitrary: m) (auto simp: process_line_other)

lemma process_line_hit:
  "process_line l [] = [(s, v)] \<Longrightarrow> map_of (process_line l m) s = Some v"
  by (subst process_line_entry) (simp add: update_conv')

lemmas line_eval =
  process_line_def completed_marker_def expected_steps_def lower_def
  parse_runtime_from_line_def match_here_def plus_class_def py_float_def
  digits_val_def digit_val_def lower_char_def char_of_def bit_Suc_0_iff
  is_space_def is_digit_def is_num_char_def

text \<open>
  Claim C1. In the dictionary that the scan of a log gives, a step has at most one value,
  and when several lines record a value for the same step, the value of the last of them
  is the one the dictionary holds: a line \<open>l\<close> that records \<open>v\<close> for the step \<open>s\<close> and is
  followed by no line that records a value for \<open>s\<close> leaves \<open>s\<close> with the value \<open>v\<close>,
  whatever the lines before it recorded.
\<close>

theorem last_occurrence_wins:
  "distinct (map fst (scan_lines ls []))
   \<and> (process_line l [] = [(s, v)]
        \<and> (\<forall>l' \<in> set after. \<forall>v'. process_line l' [] \<noteq> [(s, v')])
      \<longrightarrow> map_of (scan_lines (before @ l # after) []) s = Some v)"
proof (intro conjI impI)
  show "distinct (map fst (scan_lines ls []))"
    by (rule scan_lines_distinct) simp
next
  assume h: "process_line l [] = [(s, v)]
        \<and> (\<forall>l' \<in> set after. \<forall>v'. process_line l' [] \<noteq> [(s, v')])"
  have "map_of (scan_lines (before @ l # after) []) s
          = map_of (process_line l (scan_lines before [])) s"
    using h by (simp add: scan_lines_append scan_lines_other)
  also have "\<dots> = Some v"
    using h by (simp add: process_line_hit)
  finally show "map_of (scan_lines (before @ l # after) []) s = Some v" .
qed

theorem last_occurrence_wins_witness:
  "process_line ''Info: Completed transformation compile: elapsed time 3.25 seconds'' []
     = [(''compile'', 13 / 4)]
   \<and> process_line ''Info: Completed transformation analyze: elapsed time 2 seconds'' []
     = [(''analyze'', 2)]
   \<and> map_of (scan_lines
        ([''Info: Completed transformation compile: elapsed time 1.5 seconds'']
         @ ''Info: Completed transformation compile: elapsed time 3.25 seconds''
         # [''Info: Completed transformation analyze: elapsed time 2 seconds'']) [])
        ''compile'' = Some (13 / 4)"
proof -
  have a: "process_line ''Info: Completed transformation compile: elapsed time 3.25 seconds'' []
     = [(''compile'', 13 / 4)]"
    by (simp add: line_eval)
  have b: "\<forall>l' \<in> set [''Info: Completed transformation analyze: elapsed time 2 seconds''].
        \<forall>v'. process_line l' [] \<noteq> [(''compile'', v')]"
    by (simp add: line_eval)
  have c: "process_line ''Info: Completed transformation analyze: elapsed time 2 seconds'' []
     = [(''analyze'', 2)]"
    by (simp add: line_eval)
  from a b c last_occurrence_wins
    [of "[]" "''Info: Completed transformation compile: elapsed time 3.25 seconds''"
        "''compile''" "13 / 4"
        "[''Info: Completed transformation analyze: elapsed time 2 seconds'']"
        "[''Info: Completed transformation compile: elapsed time 1.5 seconds'']"]
  show ?thesis by blast
qed

subsection \<open>What one line contributes\<close>

text \<open>
  Claim C2. A line without the marker \<^verbatim>\<open>Info: Completed transformation\<close> changes
  nothing. On a line with the marker, the steps are tried in the order of the list of
  expected steps, each as a substring of the lower-cased line, and only the first step
  found can get the value of the line; a line with no step, or with no runtime to extract,
  changes nothing. The runtime is the number of the leftmost place where the line reads
  \<^verbatim>\<open>elapsed time\<close>, white space, a token of digits and dots, white space and
  \<^verbatim>\<open>second\<close>, in any case; a step is found in the line exactly when some part of
  the line is the name of the step up to case.
\<close>

theorem line_contribution:
  "process_line line m =
     (if contains completed_marker line
      then (case find (\<lambda>step. contains step (lower line)) expected_steps of
              None \<Rightarrow> m
            | Some step \<Rightarrow>
                (case parse_runtime_from_line line of
                   None \<Rightarrow> m
                 | Some r \<Rightarrow> AList.update step r m))
      else m)
   \<and> (parse_runtime_from_line line = Some v
        \<longleftrightarrow> (\<exists>tok. leftmost_elapsed line tok \<and> py_float tok = Some v))
   \<and> (contains step (lower line)
        \<longleftrightarrow> (\<exists>pre mid post. line = pre @ mid @ post \<and> lower mid = step))
   \<and> (contains completed_marker line
        \<longleftrightarrow> (\<exists>pre post. line = pre @ completed_marker @ post))"
proof (intro conjI)
  show "process_line line m =
     (if contains completed_marker line
      then (case find (\<lambda>step. contains step (lower line)) expected_steps of
              None \<Rightarrow> m
            | Some step \<Rightarrow>
                (case parse_runtime_from_line line of
                   None \<Rightarrow> m
                 | Some r \<Rightarrow> AList.update step r m))
      else m)"
    by (simp add: process_line_def try_steps_find)
next
  show "parse_runtime_from_line line = Some v
        \<longleftrightarrow> (\<exists>tok. leftmost_elapsed line tok \<and> py_float tok = Some v)"
    by (auto simp: parse_runtime_from_line_def re_search_iff [symmetric] split: option.splits)
next
  show "contains step (lower line)
        \<longleftrightarrow> (\<exists>pre mid post. line = pre @ mid @ post \<and> lower mid = step)"
    by (rule contains_lower_iff)
next
  show "contains completed_marker line
        \<longleftrightarrow> (\<exists>pre post. line = pre @ completed_marker @ post)"
    by (rule contains_iff)
qed

theorem line_contribution_witness:
  "process_line
     ''# Info: Completed transformation COMPILE on solution x.v1: Elapsed Time  15.95 seconds, memory 1 kB''
     [(''analyze'', 1)]
     = [(''analyze'', 1), (''compile'', 319 / 20)]
   \<and> (\<exists>tok. leftmost_elapsed
         ''# Info: Completed transformation COMPILE on solution x.v1: Elapsed Time  15.95 seconds, memory 1 kB''
         tok \<and> py_float tok = Some (319 / 20))
   \<and> (\<exists>pre mid post.
         ''# Info: Completed transformation COMPILE on solution x.v1: Elapsed Time  15.95 seconds, memory 1 kB''
           = pre @ mid @ post \<and> lower mid = ''compile'')"
  using line_contribution
    [of "''# Info: Completed transformation COMPILE on solution x.v1: Elapsed Time  15.95 seconds, memory 1 kB''"
        "[(''analyze'', 1)]" "319 / 20" "''compile''"]
  by (simp add: line_eval)

lemma py_float_num:
  "py_float tok = Some v \<Longrightarrow> 0 \<le> v"
  by (auto simp: py_float_def Let_def split: list.splits if_splits)

text \<open>
  Claim C6. When the token that the pattern takes from a line is no number for
  \<^verbatim>\<open>float\<close>, \<^verbatim>\<open>parse_runtime_from_line\<close> returns \<^verbatim>\<open>None\<close> and the line leaves the
  dictionary as it was: the \<^verbatim>\<open>ValueError\<close> does not leave the function.
\<close>

theorem malformed_number_is_skipped:
  "re_search line = Some tok \<Longrightarrow> py_float tok = None \<Longrightarrow>
     parse_runtime_from_line line = None \<and> process_line line m = m"
  by (simp add: parse_runtime_from_line_def process_line_def try_steps_find
           split: option.splits)

theorem malformed_number_is_skipped_witness:
  "re_search ''Info: Completed transformation compile: elapsed time 1.2.3 seconds'' = Some ''1.2.3''
   \<and> py_float ''1.2.3'' = None
   \<and> parse_runtime_from_line ''Info: Completed transformation compile: elapsed time 1.2.3 seconds'' = None
   \<and> process_line ''Info: Completed transformation compile: elapsed time 1.2.3 seconds''
        [(''compile'', 7)] = [(''compile'', 7)]"
proof -
  have a: "re_search ''Info: Completed transformation compile: elapsed time 1.2.3 seconds'' = Some ''1.2.3''"
    by (simp add: line_eval)
  have b: "py_float ''1.2.3'' = None"
    by (simp add: line_eval)
  from a b malformed_number_is_skipped [OF a b, of "[(''compile'', 7)]"]
  show ?thesis by blast
qed

subsection \<open>The loop over the located files\<close>

lemma parse_hls_runtimes_failure:
  "snd (rd p) = Some e \<Longrightarrow>
     parse_hls_runtimes rd p =
       ([case e of
           FileNotFoundError \<Rightarrow> ''Warning: Could not read logfile '' @ p
         | OtherException t \<Rightarrow> ''Warning: Error reading '' @ p @ '': '' @ t], [])"
  by (simp add: parse_hls_runtimes_def try_scan_def split: exn.splits)

lemma main_loop_snd_Cons:
  "snd (main_loop rd ((n, p) # rest) dr) =
     snd (main_loop rd rest
            (if snd (parse_hls_runtimes rd p) \<noteq> []
             then AList.update n (snd (parse_hls_runtimes rd p)) dr else dr))"
  by (simp add: main_loop.simps(2) split_def Let_def)

lemma main_loop_fst_Cons:
  "fst (main_loop rd ((n, p) # rest) dr) =
     (''Parsing: '' @ n @ '' ('' @ p @ '')'') # fst (parse_hls_runtimes rd p)
     @ fst (main_loop rd rest
            (if snd (parse_hls_runtimes rd p) \<noteq> []
             then AList.update n (snd (parse_hls_runtimes rd p)) dr else dr))"
  by (simp add: main_loop.simps(2) split_def Let_def)

lemma main_loop_snd_append:
  "snd (main_loop rd (xs @ ys) dr) = snd (main_loop rd ys (snd (main_loop rd xs dr)))"
proof (induction xs arbitrary: dr)
  case Nil
  then show ?case by simp
next
  case (Cons x xs)
  obtain n p where x: "x = (n, p)" by (cases x)
  show ?case
    unfolding x append_Cons main_loop_snd_Cons by (rule Cons.IH)
qed

lemma main_loop_skip:
  "snd (parse_hls_runtimes rd p) = [] \<Longrightarrow>
     snd (main_loop rd (before @ (n, p) # after) dr) = snd (main_loop rd (before @ after) dr)"
  by (simp add: main_loop_snd_append main_loop_snd_Cons)

lemma main_loop_output:
  "fst (main_loop rd files dr) =
     concat (map (\<lambda>(n, p). (''Parsing: '' @ n @ '' ('' @ p @ '')'')
                              # fst (parse_hls_runtimes rd p)) files)"
proof (induction files arbitrary: dr)
  case Nil
  then show ?case by simp
next
  case (Cons x xs)
  obtain n p where x: "x = (n, p)" by (cases x)
  show ?case
    unfolding x main_loop_fst_Cons by (simp add: Cons.IH)
qed

lemma main_loop_distinct:
  "distinct (map fst dr) \<Longrightarrow> distinct (map fst (snd (main_loop rd files dr)))"
proof (induction files arbitrary: dr)
  case Nil
  then show ?case by simp
next
  case (Cons x xs)
  obtain n p where x: "x = (n, p)" by (cases x)
  show ?case
    unfolding x main_loop_snd_Cons
    by (rule Cons.IH) (simp add: Cons.prems distinct_update)
qed

lemma main_loop_map_of:
  "map_of (snd (main_loop rd files dr)) d =
     (case filter (\<lambda>(n, p). n = d \<and> snd (parse_hls_runtimes rd p) \<noteq> []) files of
        [] \<Rightarrow> map_of dr d
      | h # hs \<Rightarrow> Some (snd (parse_hls_runtimes rd (snd (last (h # hs))))))"
proof (induction files arbitrary: dr)
  case Nil
  then show ?case by simp
next
  case (Cons x xs)
  obtain n p where x: "x = (n, p)" by (cases x)
  show ?case
    unfolding x main_loop_snd_Cons Cons.IH
    by (auto simp: update_conv' split: list.splits)
qed

lemma main_loop_without:
  "\<forall>(n, p) \<in> set files. n = d \<longrightarrow> snd (parse_hls_runtimes rd p) = [] \<Longrightarrow>
     snd (main_loop rd files dr) = snd (main_loop rd (filter (\<lambda>(n, p). n \<noteq> d) files) dr)"
proof (induction files arbitrary: dr)
  case Nil
  then show ?case by simp
next
  case (Cons x xs)
  obtain n p where x: "x = (n, p)" by (cases x)
  from Cons.prems have rest: "\<forall>(n, p) \<in> set xs. n = d \<longrightarrow> snd (parse_hls_runtimes rd p) = []"
    by simp
  show ?case
  proof (cases "n = d")
    case True
    with Cons.prems x have "snd (parse_hls_runtimes rd p) = []" by simp
    with True show ?thesis
      unfolding x by (simp add: main_loop_snd_Cons Cons.IH [OF rest])
  next
    case False
    then show ?thesis
      unfolding x by (simp add: main_loop_snd_Cons Cons.IH [OF rest])
  qed
qed

subsection \<open>Failing reads and colliding names\<close>

lemma parse_hls_runtimes_snd:
  "snd (parse_hls_runtimes rd p) =
     (case snd (rd p) of Some e \<Rightarrow> [] | None \<Rightarrow> scan_lines (fst (rd p)) [])"
  by (simp add: parse_hls_runtimes_def try_scan_def Let_def split: option.splits exn.splits)

lemma example_a:
  "snd (parse_hls_runtimes example_reads ''hls/a/d/catapult.log'') = [(''compile'', 3 / 2)]"
  by (simp add: parse_hls_runtimes_snd example_reads_def line_eval)

lemma example_b:
  "snd (parse_hls_runtimes example_reads ''hls/b/d/catapult.log'') = []"
  by (simp add: parse_hls_runtimes_snd example_reads_def)

text \<open>
  Claim C5. When a log file is missing, or reading it fails with any other exception,
  \<^verbatim>\<open>parse_hls_runtimes\<close> prints one warning with the path (and the text of the
  exception when the file is not just missing) and returns the empty dictionary, also
  when lines were read before the failure. No exception leaves the function, and the
  loop of \<^verbatim>\<open>main\<close> collects from the other files what it collects without the
  failing one.
\<close>

theorem read_failure_is_skipped:
  "snd (rd logfile_path) = Some e \<Longrightarrow>
     parse_hls_runtimes rd logfile_path =
       ([case e of
           FileNotFoundError \<Rightarrow> ''Warning: Could not read logfile '' @ logfile_path
         | OtherException t \<Rightarrow> ''Warning: Error reading '' @ logfile_path @ '': '' @ t],
        [])
     \<and> snd (main_loop rd (before @ (design_name, logfile_path) # after) design_runtimes)
         = snd (main_loop rd (before @ after) design_runtimes)"
  by (simp add: parse_hls_runtimes_failure main_loop_skip)

theorem read_failure_is_skipped_witness:
  "snd (example_reads ''hls/c/catapult.log'') = Some (OtherException ''bad byte'')
   \<and> fst (example_reads ''hls/c/catapult.log'') \<noteq> []
   \<and> parse_hls_runtimes example_reads ''hls/c/catapult.log''
       = ([''Warning: Error reading hls/c/catapult.log: bad byte''], [])
   \<and> snd (main_loop example_reads
            ([] @ (''c'', ''hls/c/catapult.log'') # [(''d'', ''hls/a/d/catapult.log'')]) [])
       = [(''d'', [(''compile'', 3 / 2)])]"
proof -
  have a: "snd (example_reads ''hls/c/catapult.log'') = Some (OtherException ''bad byte'')"
    by (simp add: example_reads_def)
  have b: "fst (example_reads ''hls/c/catapult.log'') \<noteq> []"
    by (simp add: example_reads_def)
  have c: "snd (main_loop example_reads ([] @ [(''d'', ''hls/a/d/catapult.log'')]) [])
             = [(''d'', [(''compile'', 3 / 2)])]"
    by (simp add: main_loop_snd_Cons example_a)
  from read_failure_is_skipped
    [of example_reads "''hls/c/catapult.log''" "OtherException ''bad byte''"
        "[]" "''c''" "[(''d'', ''hls/a/d/catapult.log'')]" "[]"]
    a b c
  show ?thesis by simp
qed

text \<open>
  Claim C10, as stated: of two located logs with the same directory name, the
  collected dictionary holds the steps of the one processed later. It fails when the later
  log gives no steps: the guard \<^verbatim>\<open>if step_runtimes\<close> of line 41 then leaves the entry
  of the earlier log in place.
\<close>

theorem later_file_wins_counterexample:
  "map_of (snd (main_loop example_reads
             [(''d'', ''hls/a/d/catapult.log''), (''d'', ''hls/b/d/catapult.log'')] []))
          ''d''
     \<noteq> Some (snd (parse_hls_runtimes example_reads ''hls/b/d/catapult.log''))"
  by (simp add: main_loop_snd_Cons example_a example_b)

text \<open>
  Claim C10, amended. For every name, the collected dictionary holds one entry at most,
  and it is the dictionary of the last located log with that directory name that gave
  at least one step; logs that gave no step do not count, nothing of an earlier log is
  merged in, and what is printed is, log after log, the line \<^verbatim>\<open>Parsing: ...\<close> and the
  warnings of that log alone: no line tells of the collision.
\<close>

theorem name_collision_last_nonempty_wins:
  "map_of (snd (main_loop rd logfiles [])) d =
     (case filter (\<lambda>(n, p). n = d \<and> snd (parse_hls_runtimes rd p) \<noteq> []) logfiles of
        [] \<Rightarrow> None
      | h # hs \<Rightarrow> Some (snd (parse_hls_runtimes rd (snd (last (h # hs))))))
   \<and> distinct (map fst (snd (main_loop rd logfiles [])))
   \<and> fst (main_loop rd logfiles []) =
       concat (map (\<lambda>(n, p). (''Parsing: '' @ n @ '' ('' @ p @ '')'')
                                # fst (parse_hls_runtimes rd p)) logfiles)"
  by (simp add: main_loop_map_of main_loop_distinct main_loop_output split: list.splits)

theorem name_collision_last_nonempty_wins_witness:
  "map_of (snd (main_loop example_reads
             [(''d'', ''hls/a/d/catapult.log''), (''d'', ''hls/b/d/catapult.log'')] []))
          ''d''
     = Some [(''compile'', 3 / 2)]"
  using name_collision_last_nonempty_wins
    [of example_reads "[(''d'', ''hls/a/d/catapult.log''), (''d'', ''hls/b/d/catapult.log'')]" "''d''"]
  by (simp add: example_a example_b)

subsection \<open>The text report\<close>

lemma map_insort_key: "map f (insort_key f x xs) = insort (f x) (map f xs)"
  by (induction xs) auto

lemma map_sort_key: "map f (sort_key f xs) = sort (map f xs)"
  by (induction xs) (auto simp: map_insort_key)

lemma sorted_items_keys: "map fst (sorted_items d) = sort (map fst d)"
  by (simp add: sorted_items_def map_sort_key)

lemma sorted_items_sorted: "sorted (map fst (sorted_items d))"
  by (simp add: sorted_items_keys)

lemma sorted_items_strict:
  "distinct (map fst d) \<Longrightarrow> sorted_wrt (<) (map fst (sorted_items d))"
  by (simp add: sorted_items_keys strict_sorted_iff)

lemma sorted_items_set: "set (sorted_items d) = set d"
  by (simp add: sorted_items_def)

lemma sorted_items_length: "length (sorted_items d) = length d"
  by (simp add: sorted_items_def)

lemma dict_values_map:
  "distinct (map fst m) \<Longrightarrow> map snd m = map (\<lambda>k. the (map_of m k)) (map fst m)"
proof (induction m)
  case Nil
  then show ?case by simp
next
  case (Cons a m)
  obtain k v where a: "a = (k, v)" by (cases a)
  from Cons.prems a have k: "k \<notin> set (map fst m)" and d: "distinct (map fst m)"
    by simp_all
  have "map (\<lambda>k'. the (map_of ((k, v) # m) k')) (map fst m)
          = map (\<lambda>k'. the (map_of m k')) (map fst m)"
  proof (rule map_cong [OF refl])
    fix x assume "x \<in> set (map fst m)"
    with k have "x \<noteq> k" by auto
    then show "the (map_of ((k, v) # m) x) = the (map_of m x)" by simp
  qed
  with Cons.IH [OF d] show ?case
    unfolding a by simp
qed

lemma dict_values_sum:
  "distinct (map fst m) \<Longrightarrow>
     sum_list (map snd m) = (\<Sum>k \<in> set (map fst m). the (map_of m k))"
proof -
  assume d: "distinct (map fst m)"
  have "map snd m = map (\<lambda>k. the (map_of m k)) (map fst m)"
    using d by (rule dict_values_map)
  then have "sum_list (map snd m) = sum_list (map (\<lambda>k. the (map_of m k)) (map fst m))"
    by (rule arg_cong)
  also have "\<dots> = (\<Sum>k \<in> set (map fst m). the (map_of m k))"
    using d by (rule sum_list_distinct_conv_sum_set)
  finally show ?thesis .
qed

lemma round_half_even_nearest: "\<bar>of_int (round_half_even x) - x\<bar> \<le> 1 / 2"
proof -
  have "of_int \<lfloor>x\<rfloor> \<le> x" "x < of_int \<lfloor>x\<rfloor> + 1"
    by linarith+
  then show ?thesis
    by (auto simp: round_half_even_def Let_def)
qed

lemma py_round2_nearest:
  "\<bar>py_round2 x - x\<bar> \<le> 1 / 200 \<and> (\<exists>k. py_round2 x = of_int k / 100)"
proof -
  have "\<bar>of_int (round_half_even (x * 100)) - x * 100\<bar> \<le> 1 / 2"
    by (rule round_half_even_nearest)
  then have "\<bar>py_round2 x - x\<bar> \<le> 1 / 200"
    by (simp add: py_round2_def field_simps abs_le_iff)
  then show ?thesis
    by (auto simp: py_round2_def)
qed

lemma replicate_numeral: "replicate (numeral k) x = x # replicate (pred_numeral k) x"
  by (simp add: numeral_eq_Suc)

lemmas fmt_eval =
  report_row_def ljust_def rjust_def fmt_2f_def round_half_even_def show_nat.simps
  digit_char_def char_of_def bit_Suc_0_iff

text \<open>
  Claim C3, as stated: a row of the report is the name in a field of 30 characters, the
  total in a field of 8 characters, and \<^verbatim>\<open> seconds\<close>. The format of line 139 has one
  more space, between the two fields.
\<close>

theorem report_row_counterexample:
  "report_row (''A'', [(''analyze'', 5)])
     \<noteq> ljust 30 ''A'' @ rjust 8 (fmt_2f (sum_list (map snd [(''analyze'', 5 :: rat)])))
         @ '' seconds''"
  by (simp add: fmt_eval)

text \<open>
  Claim C3, amended. For every dictionary of designs, the report is its two heading lines
  and then one row for each design, the designs in ascending order of their names
  (strictly ascending, as the keys of a dictionary differ). A row is the name padded on
  the right to 30 characters, one space, the total with two decimals padded on the left
  to 8 characters, and \<^verbatim>\<open> seconds\<close>. The total is the sum of the values that the
  design has: the sum over its keys, so a step that it lacks adds nothing. The two
  decimals are those of the hundredth nearest to the total.
\<close>

theorem report_rows:
  "generate_report design_runtimes =
     [CHR 0x0A # ''HLS Runtime Summary:'', replicate 60 (CHR ''-'')]
     @ map (\<lambda>(design_name, step_runtimes).
              ljust 30 design_name @ '' ''
              @ rjust 8 (fmt_2f (sum_list (map snd step_runtimes))) @ '' seconds'')
           (sorted_items design_runtimes)
   \<and> sorted (map fst (sorted_items design_runtimes))
   \<and> set (sorted_items design_runtimes) = set design_runtimes
   \<and> length (sorted_items design_runtimes) = length design_runtimes
   \<and> (distinct (map fst design_runtimes)
        \<longrightarrow> sorted_wrt (<) (map fst (sorted_items design_runtimes)))
   \<and> (distinct (map fst step_runtimes)
        \<longrightarrow> sum_list (map snd step_runtimes)
            = (\<Sum>k \<in> set (map fst step_runtimes). the (map_of step_runtimes k)))
   \<and> \<bar>of_int (round_half_even (x * 100)) - x * 100\<bar> \<le> 1 / 2"
proof (intro conjI impI)
  show "\<bar>of_int (round_half_even (x * 100)) - x * 100\<bar> \<le> 1 / 2"
    by (rule round_half_even_nearest)
next
  show "generate_report design_runtimes =
     [CHR 0x0A # ''HLS Runtime Summary:'', replicate 60 (CHR ''-'')]
     @ map (\<lambda>(design_name, step_runtimes).
              ljust 30 design_name @ '' ''
              @ rjust 8 (fmt_2f (sum_list (map snd step_runtimes))) @ '' seconds'')
           (sorted_items design_runtimes)"
    by (simp add: generate_report_def report_row_def split_def)
qed (simp_all add: sorted_items_sorted sorted_items_set sorted_items_length
       sorted_items_strict dict_values_sum)

theorem report_rows_witness:
  "generate_report [(''B'', [(''analyze'', 2)]), (''A'', [(''analyze'', 7 / 2), (''compile'', 3 / 2)])]
     = [CHR 0x0A # ''HLS Runtime Summary:'',
        ''------------------------------------------------------------'',
        ''A                                  5.00 seconds'',
        ''B                                  2.00 seconds'']
   \<and> sorted_wrt (<) (map fst (sorted_items
         [(''B'', [(''analyze'', 2 :: rat)]), (''A'', [(''analyze'', 7 / 2), (''compile'', 3 / 2)])]))"
proof -
  have s: "sorted_items [(''B'', [(''analyze'', 2 :: rat)]),
                         (''A'', [(''analyze'', 7 / 2), (''compile'', 3 / 2)])]
             = [(''A'', [(''analyze'', 7 / 2), (''compile'', 3 / 2)]), (''B'', [(''analyze'', 2)])]"
    by (simp add: sorted_items_def)
  have d: "distinct (map fst [(''B'', [(''analyze'', 2 :: rat)]),
                              (''A'', [(''analyze'', 7 / 2), (''compile'', 3 / 2)])])"
    by simp
  from report_rows
    [of "[(''B'', [(''analyze'', 2)]), (''A'', [(''analyze'', 7 / 2), (''compile'', 3 / 2)])]"
        "[]" 0] d
  show ?thesis
    unfolding s by (simp add: fmt_eval replicate_numeral)
qed

subsection \<open>The rows of the export\<close>

text \<open>The cell of a step in the row of a design, and the steps that the design has.\<close>

lemma export_steps_total:
  "snd (export_steps steps sr (row, t)) =
     t + sum_list (map (\<lambda>s. the (map_of sr s)) (filter (\<lambda>s. s \<in> set (map fst sr)) steps))"
proof (induction steps arbitrary: row t)
  case Nil
  then show ?case by simp
next
  case (Cons s steps)
  show ?case
  proof (cases "map_of sr s")
    case None
    then have "s \<notin> set (map fst sr)"
      by (simp add: map_of_eq_None_iff)
    with None show ?thesis by (simp add: Cons.IH)
  next
    case (Some v)
    then have "s \<in> set (map fst sr)"
      by (metis map_of_eq_None_iff option.distinct(1) set_map)
    with Some show ?thesis by (simp add: Cons.IH add.assoc)
  qed
qed

lemma export_steps_map_of:
  "map_of (fst (export_steps steps sr (row, t))) k =
     (if k \<in> set steps
      then Some (case map_of sr k of None \<Rightarrow> CNone | Some v \<Rightarrow> CFloat v)
      else map_of row k)"
proof (induction steps arbitrary: row t)
  case Nil
  then show ?case by simp
next
  case (Cons s steps)
  show ?case
    by (cases "map_of sr s") (auto simp: Cons.IH update_conv')
qed

lemma export_row_map_of:
  "map_of (export_row (n, sr)) k =
     (if k = ''total_runtime''
      then Some (CFloat (py_round2 (sum_list (map (\<lambda>s. the (map_of sr s))
                   (filter (\<lambda>s. s \<in> set (map fst sr)) export_expected_steps)))))
      else if k \<in> set export_expected_steps
      then Some (case map_of sr k of None \<Rightarrow> CNone | Some v \<Rightarrow> CFloat v)
      else if k = ''design'' then Some (CStr n) else None)"
proof -
  obtain row t where e: "export_steps export_expected_steps sr ([(''design'', CStr n)], 0) = (row, t)"
    by (cases "export_steps export_expected_steps sr ([(''design'', CStr n)], 0)")
  have t: "t = sum_list (map (\<lambda>s. the (map_of sr s))
                   (filter (\<lambda>s. s \<in> set (map fst sr)) export_expected_steps))"
    using export_steps_total [of export_expected_steps sr "[(''design'', CStr n)]" 0] e by simp
  have r: "map_of row k =
     (if k \<in> set export_expected_steps
      then Some (case map_of sr k of None \<Rightarrow> CNone | Some v \<Rightarrow> CFloat v)
      else map_of [(''design'', CStr n)] k)"
    using export_steps_map_of [of export_expected_steps sr "[(''design'', CStr n)]" 0 k] e by simp
  show ?thesis
    by (simp add: export_row_def e update_conv' r t)
qed

lemma writerow_export_row:
  "writerow csv_fieldnames (export_row (n, sr)) =
     CStr n
     # CFloat (py_round2 (sum_list (map (\<lambda>s. the (map_of sr s))
                   (filter (\<lambda>s. s \<in> set (map fst sr)) export_expected_steps))))
     # map (\<lambda>s. case map_of sr s of None \<Rightarrow> CNone | Some v \<Rightarrow> CFloat v)
           export_expected_steps"
proof -
  have a: "''design'' \<notin> set export_expected_steps"
    and b: "''total_runtime'' \<notin> set export_expected_steps"
    by (simp_all add: export_expected_steps_def)
  have c: "map (\<lambda>k. case map_of (export_row (n, sr)) k of Some c \<Rightarrow> c | None \<Rightarrow> CStr [])
               export_expected_steps
           = map (\<lambda>s. case map_of sr s of None \<Rightarrow> CNone | Some v \<Rightarrow> CFloat v)
               export_expected_steps"
  proof (rule map_cong [OF refl])
    fix s assume s: "s \<in> set export_expected_steps"
    with b have "s \<noteq> ''total_runtime''" by auto
    with s show "(case map_of (export_row (n, sr)) s of Some c \<Rightarrow> c | None \<Rightarrow> CStr [])
          = (case map_of sr s of None \<Rightarrow> CNone | Some v \<Rightarrow> CFloat v)"
      by (simp add: export_row_map_of)
  qed
  show ?thesis
    using a b by (simp add: writerow_def csv_fieldnames_def c export_row_map_of)
qed

lemma present_steps_sum:
  fixes sr :: step_dict
  assumes d: "distinct (map fst sr)" and sub: "set (map fst sr) \<subseteq> set export_expected_steps"
  shows "sum_list (map (\<lambda>s. the (map_of sr s))
           (filter (\<lambda>s. s \<in> set (map fst sr)) export_expected_steps))
         = sum_list (map snd sr)"
proof -
  have de: "distinct export_expected_steps"
    by (simp add: export_expected_steps_def)
  have "sum_list (map (\<lambda>s. the (map_of sr s))
           (filter (\<lambda>s. s \<in> set (map fst sr)) export_expected_steps))
        = (\<Sum>s \<in> set (filter (\<lambda>s. s \<in> set (map fst sr)) export_expected_steps).
             the (map_of sr s))"
    using de by (intro sum_list_distinct_conv_sum_set) simp
  also have "set (filter (\<lambda>s. s \<in> set (map fst sr)) export_expected_steps) = set (map fst sr)"
    using sub by auto
  also have "(\<Sum>s \<in> set (map fst sr). the (map_of sr s)) = sum_list (map snd sr)"
    using d by (simp add: dict_values_sum)
  finally show ?thesis .
qed

end
